theory Spec2Isabelle
  imports Main
begin

section \<open>Python strings\<close>

text \<open>
  A Python \<open>str\<close> is a sequence of Unicode code points; the thesis chapters are Greek
  text, so a character is modelled by its code point (a natural number) and not by an
  8-bit \<open>char\<close>. \<open>str\<close> turns an ASCII literal into such a string.
\<close>

type_synonym pystr = "nat list"

definition str :: "string \<Rightarrow> pystr" where
  "str s = map of_char s"

abbreviation (input) NEWLINE :: nat where "NEWLINE \<equiv> 10"
abbreviation (input) SPACE :: nat where "SPACE \<equiv> 32"
abbreviation (input) HASH :: nat where "HASH \<equiv> 35"
abbreviation (input) STAR :: nat where "STAR \<equiv> 42"
abbreviation (input) DASH :: nat where "DASH \<equiv> 45"
abbreviation (input) PIPE :: nat where "PIPE \<equiv> 124"

text \<open>
  \<open>str.isspace\<close> for one code point, as CPython decides it: the ASCII white space
  \<open>0x09-0x0D\<close>, \<open>0x1C-0x20\<close>, and \<open>0x85\<close>, \<open>0xA0\<close>, \<open>0x1680\<close>, \<open>0x2000-0x200A\<close>,
  \<open>0x2028\<close>, \<open>0x2029\<close>, \<open>0x202F\<close>, \<open>0x205F\<close>, \<open>0x3000\<close>. It is what \<open>strip()\<close> and
  \<open>rstrip()\<close> without argument remove.
\<close>

definition py_isspace :: "nat \<Rightarrow> bool" where
  "py_isspace c =
     ((9 \<le> c \<and> c \<le> 13) \<or> (28 \<le> c \<and> c \<le> 32) \<or> c = 133 \<or> c = 160 \<or> c = 5760
      \<or> (8192 \<le> c \<and> c \<le> 8202) \<or> c = 8232 \<or> c = 8233 \<or> c = 8239 \<or> c = 8287
      \<or> c = 12288)"

definition lstrip :: "pystr \<Rightarrow> pystr" where
  "lstrip s = dropWhile py_isspace s"

definition rstrip :: "pystr \<Rightarrow> pystr" where
  "rstrip s = rev (dropWhile py_isspace (rev s))"

definition strip :: "pystr \<Rightarrow> pystr" where
  "strip s = rstrip (lstrip s)"

definition startswith :: "pystr \<Rightarrow> pystr \<Rightarrow> bool" where
  "startswith s p = (take (length p) s = p)"

definition endswith :: "pystr \<Rightarrow> pystr \<Rightarrow> bool" where
  "endswith s p = (length p \<le> length s \<and> drop (length s - length p) s = p)"

text \<open>\<open>sub in s\<close> for strings: \<open>sub\<close> occurs somewhere in \<open>s\<close>.\<close>

fun contains :: "pystr \<Rightarrow> pystr \<Rightarrow> bool" where
  "contains [] sub = (sub = [])"
| "contains (c # cs) sub = (startswith (c # cs) sub \<or> contains cs sub)"

text \<open>
  \<open>xs[a:b]\<close> for non-negative \<open>a\<close> and \<open>b\<close>; an end beyond the length is clamped by
  \<open>take\<close>. A negative bound \<open>-k\<close> is \<open>length xs - k\<close>, clamped at \<open>0\<close> as Python does,
  which is the truncating subtraction of \<open>nat\<close>.
\<close>

definition slice :: "'a list \<Rightarrow> nat \<Rightarrow> nat \<Rightarrow> 'a list" where
  "slice xs a b = take (b - a) (drop a xs)"

text \<open>\<open>s.split(sep)\<close> for a one-character separator; \<open>''.split('|')\<close> is \<open>['']\<close>.\<close>

fun split :: "nat \<Rightarrow> pystr \<Rightarrow> pystr list" where
  "split sep [] = [[]]"
| "split sep (c # cs) =
     (if c = sep then [] # split sep cs
      else (case split sep cs of
              [] \<Rightarrow> [[c]]
            | f # fs \<Rightarrow> (c # f) # fs))"

section \<open>The inline tokenizer: \<open>parse_inline_markdown\<close>\<close>

text \<open>
  The pattern is \<^verbatim>\<open>(\*\*.*?\*\*|\*.*?\*)\<close>. Python's matcher backtracks: at a position it
  tries the first alternative, and the second only when the first fails. \<open>.*?\<close> is lazy,
  so it takes the fewest characters after which the closing marker matches, and \<open>.\<close>
  matches every character but the newline.

  \<open>close_bold s\<close> is the number of characters \<open>.*?\<close> takes in \<open>s\<close> (the text after an
  opening \<open>**\<close>) before a closing \<open>**\<close>, if the first alternative matches;
  \<open>close_italic s\<close> the same after an opening \<open>*\<close> for the second alternative.
\<close>

fun close_bold :: "pystr \<Rightarrow> nat option" where
  "close_bold [] = None"
| "close_bold (c # cs) =
     (if startswith (c # cs) [STAR, STAR] then Some 0
      else if c = NEWLINE then None
      else map_option Suc (close_bold cs))"

fun close_italic :: "pystr \<Rightarrow> nat option" where
  "close_italic [] = None"
| "close_italic (c # cs) =
     (if c = STAR then Some 0
      else if c = NEWLINE then None
      else map_option Suc (close_italic cs))"

text \<open>The length of the match of the pattern at the start of \<open>s\<close>, if there is one.\<close>

definition match_at :: "pystr \<Rightarrow> nat option" where
  "match_at s =
     (case (if startswith s [STAR, STAR] then close_bold (drop 2 s) else None) of
        Some k \<Rightarrow> Some (k + 4)
      | None \<Rightarrow>
          (if startswith s [STAR] then map_option (\<lambda>k. k + 2) (close_italic (drop 1 s))
           else None))"

lemma close_bold_le: "close_bold s = Some k \<Longrightarrow> k + 2 \<le> length s"
proof (induction s arbitrary: k)
  case Nil
  then show ?case by simp
next
  case (Cons c cs)
  then show ?case
    by (cases cs) (auto simp: startswith_def split: if_splits)
qed

lemma close_italic_le: "close_italic s = Some k \<Longrightarrow> k + 1 \<le> length s"
  by (induction s arbitrary: k) (auto split: if_splits)

lemma match_at_bounds: "match_at s = Some n \<Longrightarrow> 2 \<le> n \<and> n \<le> length s"
proof (cases s)
  case Nil
  then show "match_at s = Some n \<Longrightarrow> ?thesis"
    by (simp add: match_at_def startswith_def)
next
  case (Cons c cs)
  then show "match_at s = Some n \<Longrightarrow> ?thesis"
    by (auto simp: match_at_def split: option.splits if_splits
        dest!: close_bold_le close_italic_le)
qed

text \<open>
  \<open>re.finditer\<close>: the matches from left to right, as (start, end) pairs, each search
  starting where the previous match ended. No match of this pattern is empty.
\<close>

function finditer_from :: "pystr \<Rightarrow> nat \<Rightarrow> (nat \<times> nat) list" where
  "finditer_from text p =
     (if length text \<le> p then []
      else (case match_at (drop p text) of
              Some n \<Rightarrow> (p, p + n) # finditer_from text (p + n)
            | None \<Rightarrow> finditer_from text (Suc p)))"
  by pat_completeness auto
termination
  by (relation "measure (\<lambda>(text, p). length text - p)")
     (auto dest!: match_at_bounds)

declare finditer_from.simps [simp del]

definition finditer :: "pystr \<Rightarrow> (nat \<times> nat) list" where
  "finditer text = finditer_from text 0"

type_synonym run = "pystr \<times> bool \<times> bool"

text \<open>One iteration of the \<open>for match in re.finditer(...)\<close> loop, on \<open>(parts, current_pos)\<close>.\<close>

definition match_step :: "pystr \<Rightarrow> run list \<times> nat \<Rightarrow> nat \<times> nat \<Rightarrow> run list \<times> nat" where
  "match_step text st m =
     (let parts = fst st; current_pos = snd st; start = fst m; end = snd m;
          parts1 = (if current_pos < start
                    then parts @ [(slice text current_pos start, False, False)]
                    else parts);
          matched_text = slice text start end;
          n = length matched_text;
          parts2 = (if startswith matched_text [STAR, STAR] \<and> endswith matched_text [STAR, STAR]
                    then parts1 @ [(slice matched_text 2 (n - 2), True, False)]
                    else if startswith matched_text [STAR] \<and> endswith matched_text [STAR]
                    then parts1 @ [(slice matched_text 1 (n - 1), False, True)]
                    else parts1)
      in (parts2, end))"

definition parse_inline_markdown :: "pystr \<Rightarrow> run list" where
  "parse_inline_markdown text =
     (let st = foldl (match_step text) ([], 0) (finditer text);
          parts = fst st; current_pos = snd st;
          parts' = (if current_pos < length text
                    then parts @ [(slice text current_pos (length text), False, False)]
                    else parts)
      in if parts' = [] then [(text, False, False)] else parts')"

section \<open>The document sink\<close>

text \<open>
  The document is the python-docx object the script appends to. Only what the script does
  to it is modelled: the sequence of blocks appended to the body, in order, each block
  recording the call that added it with the texts it was given. Fonts, sizes, spacing and
  the table style are presentation and are left out. The document is taken to have a
  section and the styles the script names (\<open>Normal\<close>, \<open>Heading 1\<close> to \<open>Heading 4\<close>), as
  python-docx's default template and the documents Word writes have.

  python-docx keeps the document as an lxml tree, and lxml refuses a text with a
  character that XML does not allow, with \<open>ValueError\<close>: a code point below \<open>0x20\<close> other
  than tab, line feed and carriage return, \<open>U+FFFE\<close>, \<open>U+FFFF\<close>, or a surrogate (which
  cannot even be encoded).
\<close>

datatype py_error = IndexError | ValueError | FileNotFoundError | OtherError

definition xml_char :: "nat \<Rightarrow> bool" where
  "xml_char c =
     (c = 9 \<or> c = 10 \<or> c = 13
      \<or> (32 \<le> c \<and> (c < 55296 \<or> 57343 < c) \<and> c \<noteq> 65534 \<and> c \<noteq> 65535))"

abbreviation (input) xml_compatible :: "pystr \<Rightarrow> bool" where
  "xml_compatible t \<equiv> list_all xml_char t"

text \<open>
  Setting the text of a run (\<open>run.text = text\<close>, which \<open>add_run(text)\<close>, \<open>add_heading\<close> and
  \<open>cell.text = text\<close> all come to). python-docx goes through the characters with a buffer:
  a tab, a line feed or a carriage return first writes the buffer as a text element and
  then adds its own element, any other character goes to the buffer, and the end of the
  text writes the buffer. Writing a non-empty buffer is where lxml checks the characters;
  a refused buffer writes nothing. The result is the part of the text that was written,
  and the error if there was one.
\<close>

definition flush :: "pystr \<Rightarrow> pystr \<Rightarrow> pystr \<times> py_error option" where
  "flush written bfr =
     (if bfr = [] then (written, None)
      else if xml_compatible bfr then (written @ bfr, None)
      else (written, Some ValueError))"

fun add_text :: "pystr \<Rightarrow> pystr \<Rightarrow> pystr \<Rightarrow> pystr \<times> py_error option" where
  "add_text written bfr [] = flush written bfr"
| "add_text written bfr (c # cs) =
     (if c = 9 \<or> c = 10 \<or> c = 13
      then (case flush written bfr of
              (written', None) \<Rightarrow> add_text (written' @ [c]) [] cs
            | (written', Some e) \<Rightarrow> (written', Some e))
      else add_text written (bfr @ [c]) cs)"

definition set_run_text :: "pystr \<Rightarrow> pystr \<times> py_error option" where
  "set_run_text t = add_text [] [] t"

text \<open>
  The blocks. A run of a paragraph has its text and the bold and italic the script gave
  it; a table cell has its text and whether the script gave it the header format (bold,
  11 pt), and a fresh table's cells are empty and unformatted. \<open>Unfinished\<close> is the
  paragraph that a refused text leaves behind: python-docx appends the paragraph before it
  writes the text, so the paragraph stays, with the runs that were completed and, in a
  last run without format, the part of the refused text that was written.
\<close>

type_synonym cell = "pystr \<times> bool"

datatype block =
    Heading nat pystr
  | Paragraph "run list"
  | Table "cell list list"
  | PageBreak
  | Unfinished "run list" pystr

type_synonym document = "block list"

text \<open>
  \<open>add_heading\<close>: \<open>doc.add_heading(text, level)\<close> appends a paragraph, writes the text into
  a run, and then gives the paragraph its heading style.
\<close>

definition add_heading :: "document \<Rightarrow> pystr \<Rightarrow> nat \<Rightarrow> document \<times> py_error option" where
  "add_heading doc text level =
     (case set_run_text text of
        (written, None) \<Rightarrow> (doc @ [Heading level text], None)
      | (written, Some e) \<Rightarrow> (doc @ [Unfinished [] written], Some e))"

text \<open>The \<open>for part_text, part_bold, part_italic in parts\<close> loop of \<open>add_paragraph\<close>.\<close>

fun add_runs :: "run list \<Rightarrow> bool \<Rightarrow> bool \<Rightarrow> run list \<Rightarrow> block \<times> py_error option" where
  "add_runs runs bold italic [] = (Paragraph runs, None)"
| "add_runs runs bold italic ((part_text, part_bold, part_italic) # rest) =
     (case set_run_text part_text of
        (written, None) \<Rightarrow>
          add_runs (runs @ [(part_text, bold \<or> part_bold, italic \<or> part_italic)]) bold italic rest
      | (written, Some e) \<Rightarrow> (Unfinished runs written, Some e))"

definition add_paragraph ::
  "document \<Rightarrow> pystr \<Rightarrow> bool \<Rightarrow> bool \<Rightarrow> document \<times> py_error option" where
  "add_paragraph doc text bold italic =
     (case add_runs [] bold italic (parse_inline_markdown text) of
        (para, e) \<Rightarrow> (doc @ [para], e))"

definition add_page_break :: "document \<Rightarrow> document" where
  "add_page_break doc = doc @ [PageBreak]"

definition add_table :: "nat \<Rightarrow> nat \<Rightarrow> cell list list" where
  "add_table rows cols = replicate rows (replicate cols ([], False))"

section \<open>The table parser: \<open>add_table_from_markdown\<close>\<close>

text \<open>The \<open>while\<close> loop that collects the table lines, on \<open>(idx, table_lines)\<close>.\<close>

function collect_table_lines :: "pystr list \<Rightarrow> nat \<Rightarrow> pystr list \<Rightarrow> pystr list \<times> nat" where
  "collect_table_lines lines idx table_lines =
     (if idx < length lines \<and> PIPE \<in> set (lines ! idx)
      then collect_table_lines lines (Suc idx)
             (if startswith (strip (lines ! idx)) [PIPE, DASH, DASH, DASH] then table_lines
              else table_lines @ [lines ! idx])
      else (table_lines, idx))"
  by pat_completeness auto
termination
  by (relation "measure (\<lambda>(lines, idx, table_lines). length lines - idx)") auto

declare collect_table_lines.simps [simp del]

text \<open>\<open>[cell.strip() for cell in line.split('|')[1:-1]]\<close>\<close>

definition parse_row :: "pystr \<Rightarrow> pystr list" where
  "parse_row line =
     (let fields = split PIPE line
      in map strip (slice fields 1 (length fields - 1)))"

text \<open>
  Filling the table. \<open>row.cells\<close> is a tuple with one cell per column, so \<open>row.cells[j]\<close>
  raises \<open>IndexError\<close> when \<open>j\<close> is not below the column count. \<open>cell.text = cell_text\<close>
  empties the cell and writes the text into a new run, and the header format comes after
  it; a refused text leaves the cell with the part that was written, unformatted. The
  table is changed in place: what was written before an error stays written.
\<close>

fun fill_row :: "cell list \<Rightarrow> bool \<Rightarrow> nat \<Rightarrow> pystr list \<Rightarrow> cell list \<times> py_error option" where
  "fill_row row header j [] = (row, None)"
| "fill_row row header j (cell_text # rest) =
     (if j < length row
      then (case set_run_text cell_text of
              (written, None) \<Rightarrow> fill_row (row[j := (cell_text, header)]) header (Suc j) rest
            | (written, Some e) \<Rightarrow> (row[j := (written, False)], Some e))
      else (row, Some IndexError))"

fun fill_table :: "cell list list \<Rightarrow> nat \<Rightarrow> pystr list list \<Rightarrow> cell list list \<times> py_error option" where
  "fill_table table i [] = (table, None)"
| "fill_table table i (row_data # rest) =
     (if i < length table
      then (case fill_row (table ! i) (i = 0) 0 row_data of
              (row, None) \<Rightarrow> fill_table (table[i := row]) (Suc i) rest
            | (row, Some e) \<Rightarrow> (table[i := row], Some e))
      else (table, Some IndexError))"

definition table_rows :: "pystr list \<Rightarrow> nat \<Rightarrow> pystr list list" where
  "table_rows lines start_idx = map parse_row (fst (collect_table_lines lines start_idx []))"

definition add_table_from_markdown ::
  "document \<Rightarrow> pystr list \<Rightarrow> nat \<Rightarrow> document \<times> (py_error + nat)" where
  "add_table_from_markdown doc lines start_idx =
     (let collected = collect_table_lines lines start_idx [];
          table_lines = fst collected; idx = snd collected
      in if table_lines = [] then (doc, Inr idx)
         else
           (let rows = map parse_row table_lines;
                table = add_table (length rows) (length (rows ! 0))
            in (case fill_table table 0 rows of
                  (table', Some e) \<Rightarrow> (doc @ [Table table'], Inl e)
                | (table', None) \<Rightarrow> (doc @ [Table table', Paragraph []], Inr idx))))"

section \<open>The driver: \<open>process_markdown_file\<close> and \<open>main\<close>\<close>

text \<open>
  One iteration of the \<open>while i < len(lines)\<close> loop, for \<open>i < length lines\<close>: the document
  and the next index, or the document as it is when an exception leaves the loop.
  \<open>then_next\<close> is a call that may raise, followed by \<open>i += 1\<close>.
\<close>

datatype outcome = Next document nat | Raised document py_error

definition then_next :: "document \<times> py_error option \<Rightarrow> nat \<Rightarrow> outcome" where
  "then_next r i =
     (case r of
        (doc', None) \<Rightarrow> Next doc' (Suc i)
      | (doc', Some e) \<Rightarrow> Raised doc' e)"

definition step :: "document \<Rightarrow> pystr list \<Rightarrow> nat \<Rightarrow> outcome" where
  "step doc lines i =
     (let line = rstrip (lines ! i)
      in if line = [] then Next doc (Suc i)
         else if strip line = [DASH, DASH, DASH] then Next doc (Suc i)
         else if startswith line [HASH, SPACE]
           then then_next (add_heading doc (drop 2 line) 1) i
         else if startswith line [HASH, HASH, SPACE]
           then then_next (add_heading doc (drop 3 line) 2) i
         else if startswith line [HASH, HASH, HASH, SPACE]
           then then_next (add_heading doc (drop 4 line) 3) i
         else if startswith line [HASH, HASH, HASH, HASH, SPACE]
           then then_next (add_heading doc (drop 5 line) 4) i
         else if PIPE \<in> set line \<and> Suc i < length lines
                 \<and> contains (lines ! Suc i) [PIPE, DASH, DASH, DASH]
           then (case add_table_from_markdown doc lines i of
                   (doc', Inr idx) \<Rightarrow> Next doc' idx
                 | (doc', Inl e) \<Rightarrow> Raised doc' e)
         else if strip line \<noteq> [] then then_next (add_paragraph doc line False False) i
         else Next doc (Suc i))"


lemma collect_table_lines_idx:
  "idx \<le> snd (collect_table_lines lines idx acc) \<and>
   snd (collect_table_lines lines idx acc) \<le> max idx (length lines)"
proof (induction lines idx acc rule: collect_table_lines.induct)
  case (1 lines idx table_lines)
  show ?case
  proof (cases "idx < length lines \<and> PIPE \<in> set (lines ! idx)")
    case True
    with "1" show ?thesis
      by (subst (1 2) collect_table_lines.simps) (auto simp: max_def split: if_splits)
  next
    case False
    then show ?thesis
      by (subst (1 2) collect_table_lines.simps) auto
  qed
qed

lemma collect_table_lines_advances:
  assumes "idx < length lines" and "PIPE \<in> set (lines ! idx)"
  shows "idx < snd (collect_table_lines lines idx acc)"
proof -
  have "Suc idx \<le> snd (collect_table_lines lines (Suc idx)
          (if startswith (strip (lines ! idx)) [PIPE, DASH, DASH, DASH] then acc
           else acc @ [lines ! idx]))"
    using collect_table_lines_idx by blast
  with assms show ?thesis
    by (subst collect_table_lines.simps) simp
qed

lemma set_rstrip: "set (rstrip s) \<subseteq> set s"
  unfolding rstrip_def using set_dropWhileD by fastforce

lemma then_next_Next: "then_next r i = Next doc' i' \<Longrightarrow> i' = Suc i"
  by (auto simp: then_next_def split: prod.splits option.splits)

lemma step_advances:
  assumes "i < length lines" and "step doc lines i = Next doc' i'"
  shows "i < i'"
proof (cases "PIPE \<in> set (lines ! i)")
  case True
  have "i < snd (collect_table_lines lines i [])"
    using collect_table_lines_advances [OF assms(1) True] .
  with assms(2) show ?thesis
    by (auto simp: step_def Let_def add_table_from_markdown_def
        split: if_splits prod.splits sum.splits option.splits dest!: then_next_Next)
next
  case False
  then have "PIPE \<notin> set (rstrip (lines ! i))"
    using set_rstrip by blast
  with assms(2) show ?thesis
    by (auto simp: step_def Let_def split: if_splits dest!: then_next_Next)
qed

text \<open>The \<open>while\<close> loop of \<open>process_markdown_file\<close>, from index \<open>i\<close>.\<close>

function process_from :: "document \<Rightarrow> pystr list \<Rightarrow> nat \<Rightarrow> document \<times> py_error option" where
  "process_from doc lines i =
     (if i < length lines
      then (case step doc lines i of
              Next doc' i' \<Rightarrow> process_from doc' lines i'
            | Raised doc' e \<Rightarrow> (doc', Some e))
      else (doc, None))"
  by pat_completeness auto
termination
proof (relation "measure (\<lambda>(doc, lines, i). length lines - i)")
  show "wf (measure (\<lambda>(doc, lines, i). length lines - i))"
    by simp
next
  fix doc lines i doc' i'
  assume "i < length lines" and "step doc lines i = Next doc' i'"
  then have "i < i'"
    by (rule step_advances)
  with \<open>i < length lines\<close>
  show "((doc', lines, i'), (doc, lines, i)) \<in> measure (\<lambda>(doc, lines, i). length lines - i)"
    by simp
qed

declare process_from.simps [simp del]


text \<open>
  The same loop with a bound on the number of iterations: \<open>None\<close> when the bound is
  reached before the loop ends.
\<close>

primrec process_fuel ::
  "nat \<Rightarrow> document \<Rightarrow> pystr list \<Rightarrow> nat \<Rightarrow> (document \<times> py_error option) option" where
  "process_fuel 0 doc lines i = (if i < length lines then None else Some (doc, None))"
| "process_fuel (Suc n) doc lines i =
     (if i < length lines
      then (case step doc lines i of
              Next doc' i' \<Rightarrow> process_fuel n doc' lines i'
            | Raised doc' e \<Rightarrow> Some (doc', Some e))
      else Some (doc, None))"

text \<open>
  Reading a file: \<open>open\<close> raises \<open>FileNotFoundError\<close> for a missing path, and \<open>open\<close> or
  \<open>readlines\<close> may raise something else (a directory, bytes that are not UTF-8);
  otherwise \<open>readlines\<close> gives the lines, each with its line end.
\<close>

datatype file_read = NotFound | Unreadable | Lines "pystr list"

type_synonym filesystem = "pystr \<Rightarrow> file_read"

definition process_markdown_file ::
  "filesystem \<Rightarrow> document \<Rightarrow> pystr \<Rightarrow> document \<times> py_error option" where
  "process_markdown_file fs doc filepath =
     (case fs filepath of
        NotFound \<Rightarrow> (doc, Some FileNotFoundError)
      | Unreadable \<Rightarrow> (doc, Some OtherError)
      | Lines lines \<Rightarrow> process_from doc lines 0)"

text \<open>
  The \<open>for md_file in markdown_files\<close> loop of \<open>main\<close>: the page break is inside the
  \<open>try\<close>, after the call, and both \<open>except\<close> branches only print.
\<close>

fun merge_files :: "filesystem \<Rightarrow> document \<Rightarrow> pystr list \<Rightarrow> document" where
  "merge_files fs doc [] = doc"
| "merge_files fs doc (md_file # rest) =
     (case process_markdown_file fs doc md_file of
        (doc', None) \<Rightarrow> merge_files fs (add_page_break doc') rest
      | (doc', Some e) \<Rightarrow> merge_files fs doc' rest)"

text \<open>
  \<open>main\<close>, with the list of files as a parameter; \<open>input_doc\<close> is the loaded document, or
  the new one when loading failed. The result is the document that is saved.
\<close>

definition main :: "filesystem \<Rightarrow> document \<Rightarrow> pystr list \<Rightarrow> document" where
  "main fs input_doc markdown_files = merge_files fs (add_page_break input_doc) markdown_files"

section \<open>Properties of the inline tokenizer\<close>

lemma match_at_no_star: "STAR \<notin> set s \<Longrightarrow> match_at s = None"
  by (cases s) (auto simp: match_at_def startswith_def)

lemma finditer_from_no_star: "STAR \<notin> set s \<Longrightarrow> finditer_from s p = []"
proof (induction s p rule: finditer_from.induct)
  case (1 s p)
  have "STAR \<notin> set (drop p s)"
    using "1.prems" by (meson in_set_dropD)
  then have m: "match_at (drop p s) = None"
    by (rule match_at_no_star)
  show ?case
  proof (cases "length s \<le> p")
    case True
    then show ?thesis by (subst finditer_from.simps) simp
  next
    case False
    with "1.IH"(1) [OF False m "1.prems"] m show ?thesis
      by (subst finditer_from.simps) simp
  qed
qed

text \<open>
  Claim C7. A line without any asterisk gives exactly one run: the line itself, neither
  bold nor italic. This holds for the empty line too, through the last line of
  \<open>parse_inline_markdown\<close>.
\<close>

theorem plain_line_single_run:
  "STAR \<notin> set line \<Longrightarrow> parse_inline_markdown line = [(line, False, False)]"
  by (cases line)
     (simp_all add: parse_inline_markdown_def finditer_def finditer_from_no_star slice_def)

theorem plain_line_single_run_witness:
  "STAR \<notin> set (str ''Some plain text.'')
   \<and> parse_inline_markdown (str ''Some plain text.'') = [(str ''Some plain text.'', False, False)]"
  using plain_line_single_run [of "str ''Some plain text.''"]
  by (simp add: str_def)

section \<open>Properties of the document sink\<close>

lemma add_text_accepted:
  "list_all xml_char (bfr @ t) \<Longrightarrow> add_text written bfr t = (written @ bfr @ t, None)"
proof (induction t arbitrary: written bfr)
  case Nil
  then show ?case
    by (simp add: flush_def)
next
  case (Cons c cs)
  show ?case
  proof (cases "c = 9 \<or> c = 10 \<or> c = 13")
    case True
    from Cons.prems have "list_all xml_char bfr" and "list_all xml_char ([] @ cs)"
      by simp_all
    with True Cons.IH [of "[]" "written @ bfr @ [c]"] show ?thesis
      by (auto simp: flush_def)
  next
    case False
    from Cons.prems have "list_all xml_char ((bfr @ [c]) @ cs)"
      by simp
    with False Cons.IH [of "bfr @ [c]" written] show ?thesis
      by simp
  qed
qed

lemma add_text_refused:
  "\<not> list_all xml_char (bfr @ t) \<Longrightarrow> snd (add_text written bfr t) = Some ValueError"
proof (induction t arbitrary: written bfr)
  case Nil
  then show ?case
    by (auto simp: flush_def)
next
  case (Cons c cs)
  show ?case
  proof (cases "c = 9 \<or> c = 10 \<or> c = 13")
    case True
    then have c: "xml_char c"
      by (auto simp: xml_char_def)
    show ?thesis
    proof (cases "list_all xml_char bfr")
      case ok: True
      with Cons.prems c have "\<not> list_all xml_char ([] @ cs)"
        by simp
      then have "snd (add_text (written @ bfr @ [c]) [] cs) = Some ValueError"
        by (rule Cons.IH)
      moreover have "snd (add_text (written @ [c]) [] cs) = Some ValueError"
        using \<open>\<not> list_all xml_char ([] @ cs)\<close> by (rule Cons.IH)
      ultimately show ?thesis
        using True ok by (auto simp: flush_def)
    next
      case False
      then have "bfr \<noteq> []"
        by auto
      with True False show ?thesis
        by (auto simp: flush_def)
    qed
  next
    case False
    from Cons.prems have "\<not> list_all xml_char ((bfr @ [c]) @ cs)"
      by simp
    then have "snd (add_text written (bfr @ [c]) cs) = Some ValueError"
      by (rule Cons.IH)
    with False show ?thesis
      by simp
  qed
qed

lemma set_run_text_accepted: "list_all xml_char t \<Longrightarrow> set_run_text t = (t, None)"
  using add_text_accepted [of "[]" t "[]"] by (simp add: set_run_text_def)

lemma set_run_text_refused:
  "\<not> list_all xml_char t \<Longrightarrow> snd (set_run_text t) = Some ValueError"
  using add_text_refused [of "[]" t "[]"] by (simp add: set_run_text_def)

lemma add_heading_accepted:
  "list_all xml_char t \<Longrightarrow> add_heading doc t level = (doc @ [Heading level t], None)"
  by (simp add: add_heading_def set_run_text_accepted)

lemma add_heading_refused:
  "\<not> list_all xml_char t \<Longrightarrow>
   add_heading doc t level = (doc @ [Unfinished [] (fst (set_run_text t))], Some ValueError)"
  using set_run_text_refused [of t] by (cases "set_run_text t") (simp add: add_heading_def)

section \<open>Properties of the driver\<close>

lemma rstrip_keeps_head: "\<not> py_isspace c \<Longrightarrow> rstrip (c # s) = c # rstrip s"
  by (simp add: rstrip_def dropWhile_append3)

lemma strip_keeps_head: "\<not> py_isspace c \<Longrightarrow> strip (c # s) = c # rstrip s"
  by (simp add: strip_def lstrip_def rstrip_keeps_head)

lemma hash_line_not_rule:
  assumes "take (Suc n) line = replicate n HASH @ [SPACE]" and "0 < n"
  shows "line \<noteq> [] \<and> strip line \<noteq> [DASH, DASH, DASH]"
proof -
  from assms obtain m where n: "n = Suc m"
    by (cases n) auto
  from assms(1) n obtain rest where "line = HASH # rest"
    by (cases line) auto
  then show ?thesis
    by (simp add: strip_keeps_head py_isspace_def)
qed

lemma heading_branch:
  assumes "1 \<le> n" and "n \<le> 4"
    and "take (n + 1) (rstrip (lines ! i)) = replicate n HASH @ [SPACE]"
  shows "step doc lines i = then_next (add_heading doc (drop (n + 1) (rstrip (lines ! i))) n) i"
proof -
  define R where "R = drop (n + 1) (rstrip (lines ! i))"
  have "rstrip (lines ! i) = take (n + 1) (rstrip (lines ! i)) @ R"
    unfolding R_def by simp
  with assms(3) have line: "rstrip (lines ! i) = replicate n HASH @ SPACE # R"
    by simp
  from assms(1,3) have "strip (rstrip (lines ! i)) \<noteq> [DASH, DASH, DASH]"
    using hash_line_not_rule [of n "rstrip (lines ! i)"] by auto
  then have rule: "strip (replicate n HASH @ SPACE # R) \<noteq> [DASH, DASH, DASH]"
    using line by simp
  from assms(1,2) consider "n = 1" | "n = 2" | "n = 3" | "n = 4"
    by arith
  then have "step doc lines i = then_next (add_heading doc R n) i"
  proof cases
    case 1
    with line rule show ?thesis
      by (simp add: step_def startswith_def)
  next
    case 2
    have "replicate 2 HASH = [HASH, HASH]"
      by (simp add: numeral_2_eq_2)
    with line rule 2 show ?thesis
      by (simp add: step_def startswith_def)
  next
    case 3
    have "replicate 3 HASH = [HASH, HASH, HASH]"
      by (simp add: numeral_3_eq_3)
    with line rule 3 show ?thesis
      by (simp add: step_def startswith_def)
  next
    case 4
    have "replicate 4 HASH = replicate (Suc (Suc (Suc (Suc 0)))) HASH"
      by (simp only: numeral_Bit0 numeral_One Suc_eq_plus1 flip: add.assoc One_nat_def) simp
    then have "replicate 4 HASH = [HASH, HASH, HASH, HASH]"
      by simp
    with line rule 4 show ?thesis
      by (simp add: step_def startswith_def)
  qed
  then show ?thesis
    by (simp add: R_def)
qed

text \<open>
  Claim C5, as the code has it. Let the line, with its trailing white space stripped as
  the loop does first, start with \<open>n\<close> hash signs and a space, for \<open>n\<close> from 1 to 4. When
  the rest of the line has only characters that XML allows, the iteration for this line
  appends exactly one block to the document, the heading of level \<open>n\<close> whose text is the
  line after these \<open>n + 1\<close> characters, and goes on to the next line. Otherwise the
  document refuses the text: no heading is added, the paragraph made for it stays without
  its style and with the part of the text that was written, and the \<open>ValueError\<close> leaves
  the loop.
\<close>

theorem heading_line:
  assumes "1 \<le> n" and "n \<le> 4"
    and "take (n + 1) (rstrip (lines ! i)) = replicate n HASH @ [SPACE]"
  shows "step doc lines i =
     (if list_all xml_char (drop (n + 1) (rstrip (lines ! i)))
      then Next (doc @ [Heading n (drop (n + 1) (rstrip (lines ! i)))]) (Suc i)
      else Raised (doc @ [Unfinished [] (fst (set_run_text (drop (n + 1) (rstrip (lines ! i)))))])
             ValueError)"
  using heading_branch [OF assms, of doc]
  by (simp add: then_next_def add_heading_accepted add_heading_refused)

theorem heading_line_witness:
  "(1::nat) \<le> 2 \<and> (2::nat) \<le> 4
   \<and> take (2 + 1) (rstrip ([str ''## Methods'' @ [NEWLINE]] ! 0)) = replicate 2 HASH @ [SPACE]
   \<and> step [] [str ''## Methods'' @ [NEWLINE]] 0 = Next [Heading 2 (str ''Methods'')] (Suc 0)"
proof -
  have r: "rstrip ([str ''## Methods'' @ [NEWLINE]] ! 0) = str ''## Methods''"
    by (simp add: rstrip_def py_isspace_def str_def)
  have h: "take (2 + 1) (rstrip ([str ''## Methods'' @ [NEWLINE]] ! 0)) = replicate 2 HASH @ [SPACE]"
    unfolding r by (simp add: str_def numeral_2_eq_2)
  have "step [] [str ''## Methods'' @ [NEWLINE]] 0
        = (if list_all xml_char (drop (2 + 1) (rstrip ([str ''## Methods'' @ [NEWLINE]] ! 0)))
           then Next ([] @ [Heading 2 (drop (2 + 1) (rstrip ([str ''## Methods'' @ [NEWLINE]] ! 0)))]) (Suc 0)
           else Raised ([] @ [Unfinished [] (fst (set_run_text
                  (drop (2 + 1) (rstrip ([str ''## Methods'' @ [NEWLINE]] ! 0)))))]) ValueError)"
    by (rule heading_line [OF _ _ h]) simp_all
  then have "step [] [str ''## Methods'' @ [NEWLINE]] 0 = Next [Heading 2 (str ''Methods'')] (Suc 0)"
    unfolding r by (simp add: str_def xml_char_def)
  with h show ?thesis
    by simp
qed

text \<open>
  The claim as the specification states it fails on a heading line with a control
  character: the line has the prefix of a level 1 heading, no heading is added, and the
  conversion of the file ends with the error before the next line.
\<close>

theorem heading_with_control_character:
  "take (1 + 1) (rstrip ([HASH, SPACE, 104, 1, NEWLINE])) = replicate 1 HASH @ [SPACE]
   \<and> step [] [[HASH, SPACE, 104, 1, NEWLINE]] 0 = Raised [Unfinished [] []] ValueError
   \<and> process_from [] [[HASH, SPACE, 104, 1, NEWLINE], str ''next''] 0
       = ([Unfinished [] []], Some ValueError)"
  by (simp add: rstrip_def strip_def lstrip_def py_isspace_def step_def startswith_def
      then_next_def add_heading_def set_run_text_def flush_def xml_char_def
      process_from.simps str_def)

lemmas eval_defs = str_def step_def then_next_def add_heading_def add_paragraph_def
  set_run_text_def flush_def xml_char_def add_table_from_markdown_def table_rows_def
  collect_table_lines.simps process_from.simps parse_row_def add_table_def
  rstrip_def lstrip_def strip_def py_isspace_def startswith_def endswith_def slice_def Let_def
  parse_inline_markdown_def finditer_def finditer_from.simps match_at_def match_step_def

text \<open>
  Claim C6. The three lines of the table, as \<open>readlines\<close> gives them, are converted into
  one table with the grid A, B over 1, 2, the cells of row 0 carrying the header format
  and those of row 1 not, followed by the empty paragraph that spaces the table.
\<close>

theorem table_example:
  "process_from []
     [str ''| A | B |'' @ [NEWLINE], str ''|---|---|'' @ [NEWLINE], str ''| 1 | 2 |'' @ [NEWLINE]] 0
   = ([Table [[(str ''A'', True), (str ''B'', True)], [(str ''1'', False), (str ''2'', False)]],
       Paragraph []], None)"
  by (simp add: eval_defs)

lemma add_heading_frame:
  "add_heading (d @ doc) t level = (d @ fst (add_heading doc t level), snd (add_heading doc t level))"
  by (simp add: add_heading_def split: prod.splits option.splits)

lemma add_paragraph_frame:
  "add_paragraph (d @ doc) t b i = (d @ fst (add_paragraph doc t b i), snd (add_paragraph doc t b i))"
  by (simp add: add_paragraph_def split: prod.splits)

lemma then_next_frame:
  "then_next (d @ fst r, snd r) i =
     (case then_next r i of
        Next doc' i' \<Rightarrow> Next (d @ doc') i'
      | Raised doc' e \<Rightarrow> Raised (d @ doc') e)"
  by (cases r) (simp add: then_next_def split: option.splits)

lemma add_table_from_markdown_frame:
  "add_table_from_markdown (d @ doc) lines i =
     (d @ fst (add_table_from_markdown doc lines i), snd (add_table_from_markdown doc lines i))"
  by (simp add: add_table_from_markdown_def Let_def split: prod.splits option.splits)

lemma step_frame:
  "step (d @ doc) lines i =
     (case step doc lines i of
        Next doc' i' \<Rightarrow> Next (d @ doc') i'
      | Raised doc' e \<Rightarrow> Raised (d @ doc') e)"
  by (simp add: step_def Let_def add_heading_frame [of d doc] add_paragraph_frame [of d doc]
      then_next_frame add_table_from_markdown_frame [of d doc] split: prod.splits sum.splits)

lemma process_from_frame:
  "process_from (d @ doc) lines i =
     (d @ fst (process_from doc lines i), snd (process_from doc lines i))"
proof (induction doc lines i rule: process_from.induct)
  case (1 doc lines i)
  show ?case
  proof (cases "i < length lines")
    case False
    then show ?thesis
      by (simp add: process_from.simps)
  next
    case True
    show ?thesis
    proof (cases "step doc lines i")
      case (Next doc' i')
      with True "1.IH" [OF True Next] show ?thesis
        by (simp add: process_from.simps [of "d @ doc"] process_from.simps [of doc] step_frame)
    next
      case (Raised doc' e)
      with True show ?thesis
        by (simp add: process_from.simps [of "d @ doc"] process_from.simps [of doc] step_frame)
    qed
  qed
qed

text \<open>
  Claim C8. What the conversion of a file appends, and whether it ends with an error,
  depend on the file alone and not on what the document already holds: the result on any
  document is that document followed by the result on the empty document. So two runs on
  the same input, each on a fresh document, append the same sequence of blocks.
\<close>

theorem conversion_independent_of_sink:
  "process_markdown_file fs doc filepath =
     (doc @ fst (process_markdown_file fs [] filepath), snd (process_markdown_file fs [] filepath))"
  using process_from_frame [of doc "[]"]
  by (simp add: process_markdown_file_def split: file_read.splits)

lemma process_fuel_enough:
  "length lines - i \<le> n \<Longrightarrow> process_fuel n doc lines i = Some (process_from doc lines i)"
proof (induction n arbitrary: doc i)
  case 0
  then show ?case
    by (simp add: process_from.simps)
next
  case (Suc n)
  show ?case
  proof (cases "i < length lines")
    case False
    then show ?thesis
      by (simp add: process_from.simps)
  next
    case True
    show ?thesis
    proof (cases "step doc lines i")
      case (Next doc' i')
      with True have "i < i'"
        by (rule step_advances)
      with Suc.prems have "length lines - i' \<le> n"
        by arith
      then have "process_fuel n doc' lines i' = Some (process_from doc' lines i')"
        by (rule Suc.IH)
      with True Next show ?thesis
        by (simp add: process_from.simps [of doc])
    next
      case (Raised doc' e)
      with True show ?thesis
        by (simp add: process_from.simps [of doc])
    qed
  qed
qed

lemma step_bound:
  assumes "i < length lines" and "step doc lines i = Next doc' i'"
  shows "i' \<le> length lines"
proof -
  have "snd (collect_table_lines lines i []) \<le> length lines"
    using collect_table_lines_idx [of i lines "[]"] assms(1) by simp
  with assms show ?thesis
    by (auto simp: step_def Let_def add_table_from_markdown_def
        split: if_splits prod.splits sum.splits option.splits dest!: then_next_Next)
qed

text \<open>
  Claim C9. The loop of \<open>process_markdown_file\<close> ends within one iteration per line:
  bounded by the number of lines it gives the result of the loop. Each iteration that
  goes on moves the index forward, to at most the number of lines; and the table parser,
  called on a line with a pipe, returns an index beyond the one it was given, since the
  collecting loop consumes that line.
\<close>

theorem processing_terminates:
  "process_fuel (length lines) doc lines 0 = Some (process_from doc lines 0)
   \<and> (\<forall>i d d' i'. i < length lines \<and> step d lines i = Next d' i' \<longrightarrow> i < i' \<and> i' \<le> length lines)
   \<and> (\<forall>i d d' idx. i < length lines \<and> PIPE \<in> set (lines ! i)
         \<and> add_table_from_markdown d lines i = (d', Inr idx) \<longrightarrow> i < idx \<and> idx \<le> length lines)"
proof (intro conjI allI impI)
  show "process_fuel (length lines) doc lines 0 = Some (process_from doc lines 0)"
    by (rule process_fuel_enough) simp
next
  fix i d d' i'
  assume "i < length lines \<and> step d lines i = Next d' i'"
  then show "i < i'" "i' \<le> length lines"
    using step_advances step_bound by blast+
next
  fix i d d' idx
  assume a: "i < length lines \<and> PIPE \<in> set (lines ! i)
    \<and> add_table_from_markdown d lines i = (d', Inr idx)"
  then have "idx = snd (collect_table_lines lines i [])"
    by (auto simp: add_table_from_markdown_def Let_def split: if_splits prod.splits option.splits)
  with a show "i < idx" "idx \<le> length lines"
    using collect_table_lines_advances [of i lines "[]"] collect_table_lines_idx [of i lines "[]"]
    by auto
qed

theorem processing_terminates_witness:
  "process_fuel 4 [] [str ''| A |'', str ''|---|'', str ''| 1 |'', str ''after''] 0
     = Some ([Table [[(str ''A'', True)], [(str ''1'', False)]], Paragraph [],
              Paragraph [(str ''after'', False, False)]], None)
   \<and> (0::nat) < 3 \<and> (3::nat) \<le> 4"
proof -
  let ?L = "[str ''| A |'', str ''|---|'', str ''| 1 |'', str ''after'']"
  have e: "process_from [] ?L 0
           = ([Table [[(str ''A'', True)], [(str ''1'', False)]], Paragraph [],
               Paragraph [(str ''after'', False, False)]], None)"
    by (simp add: eval_defs)
  have s: "step [] ?L 0 = Next [Table [[(str ''A'', True)], [(str ''1'', False)]], Paragraph []] 3"
    by (simp add: eval_defs)
  have t: "process_fuel (length ?L) [] ?L 0 = Some (process_from [] ?L 0)
     \<and> (\<forall>i d d' i'. i < length ?L \<and> step d ?L i = Next d' i' \<longrightarrow> i < i' \<and> i' \<le> length ?L)
     \<and> (\<forall>i d d' idx. i < length ?L \<and> PIPE \<in> set (?L ! i)
           \<and> add_table_from_markdown d ?L i = (d', Inr idx) \<longrightarrow> i < idx \<and> idx \<le> length ?L)"
    by (rule processing_terminates)
  from t have "process_fuel (length ?L) [] ?L 0 = Some (process_from [] ?L 0)"
    by (rule conjunct1)
  moreover have "length ?L = 4"
    by simp
  ultimately have 1: "process_fuel 4 [] ?L 0 = Some (process_from [] ?L 0)"
    by (simp only:)
  from t have "0 < length ?L \<and> step [] ?L 0 = Next [Table [[(str ''A'', True)], [(str ''1'', False)]], Paragraph []] 3
     \<longrightarrow> (0::nat) < 3 \<and> 3 \<le> length ?L"
    by blast
  with s have 2: "(0::nat) < 3 \<and> (3::nat) \<le> 4"
    by simp
  from 1 2 show ?thesis
    unfolding e by simp
qed

section \<open>Properties of the table parser\<close>

lemma fill_row_length: "length (fst (fill_row row h j ts)) = length row"
  by (induction ts arbitrary: row j) (auto split: prod.splits option.splits)

lemma fill_row_beyond:
  "j + length ts \<le> c \<Longrightarrow> fst (fill_row row h j ts) ! c = row ! c"
  by (induction ts arbitrary: row j) (auto split: prod.splits option.splits)

lemma fill_row_fits:
  "j + length ts \<le> length row \<Longrightarrow> list_all (list_all xml_char) ts \<Longrightarrow>
   fill_row row h j ts = (take j row @ map (\<lambda>t. (t, h)) ts @ drop (j + length ts) row, None)"
proof (induction ts arbitrary: row j)
  case Nil
  then show ?case by simp
next
  case (Cons t ts)
  then have j: "j < length row" and t: "set_run_text t = (t, None)"
    by (simp_all add: set_run_text_accepted)
  have "fill_row (row[j := (t, h)]) h (Suc j) ts
        = (take (Suc j) (row[j := (t, h)]) @ map (\<lambda>t. (t, h)) ts
           @ drop (Suc j + length ts) (row[j := (t, h)]), None)"
    using Cons.prems by (intro Cons.IH) simp_all
  moreover have "take (Suc j) (row[j := (t, h)]) = take j row @ [(t, h)]"
    using j by (simp add: take_Suc_conv_app_nth)
  moreover have "drop (Suc j + length ts) (row[j := (t, h)]) = drop (Suc j + length ts) row"
    by simp
  ultimately show ?case
    using j t by simp
qed



lemma fill_table_length: "length (fst (fill_table g i rs)) = length g"
  by (induction rs arbitrary: g i) (auto split: prod.splits option.splits)

lemma fill_table_below: "k < i \<Longrightarrow> fst (fill_table g i rs) ! k = g ! k"
  by (induction rs arbitrary: g i) (auto split: prod.splits option.splits)

lemma fill_table_row_length:
  "length (fst (fill_table g i rs) ! k) = length (g ! k)"
proof (induction rs arbitrary: g i)
  case Nil
  then show ?case by simp
next
  case (Cons r rs)
  show ?case
  proof (cases "i < length g")
    case False
    then show ?thesis by simp
  next
    case True
    obtain row e where fr: "fill_row (g ! i) (i = 0) 0 r = (row, e)"
      by (cases "fill_row (g ! i) (i = 0) 0 r")
    then have "length row = length (g ! i)"
      using fill_row_length [of "g ! i" "i = 0" 0 r] by simp
    with True have "length (g[i := row] ! k) = length (g ! k)"
      by (cases "k = i") simp_all
    with True fr Cons.IH [of "g[i := row]" "Suc i"] show ?thesis
      by (cases e) simp_all
  qed
qed

lemma fill_table_beyond:
  "i \<le> k \<Longrightarrow> k < i + length rs \<Longrightarrow> length (rs ! (k - i)) \<le> c \<Longrightarrow>
   fst (fill_table g i rs) ! k ! c = g ! k ! c"
proof (induction rs arbitrary: g i)
  case Nil
  then show ?case by simp
next
  case (Cons r rs)
  show ?case
  proof (cases "i < length g")
    case False
    then show ?thesis by simp
  next
    case True
    obtain row e where fr: "fill_row (g ! i) (i = 0) 0 r = (row, e)"
      by (cases "fill_row (g ! i) (i = 0) 0 r")
    show ?thesis
    proof (cases "k = i")
      case here: True
      with Cons.prems have "row ! c = g ! i ! c"
        using fill_row_beyond [of 0 r c "g ! i" "i = 0"] fr by simp
      moreover have "fst (fill_table (g[i := row]) (Suc i) rs) ! i = g[i := row] ! i"
        by (rule fill_table_below) simp
      ultimately show ?thesis
        using True fr here by (cases e) simp_all
    next
      case later: False
      with Cons.prems have k: "Suc i \<le> k" "k < Suc i + length rs"
        and r: "(r # rs) ! (k - i) = rs ! (k - Suc i)"
        by (simp_all add: nth_Cons')
      with Cons.prems have "fst (fill_table (g[i := row]) (Suc i) rs) ! k ! c = g[i := row] ! k ! c"
        by (intro Cons.IH) simp_all
      with True fr later show ?thesis
        by (cases e) simp_all
    qed
  qed
qed

lemma fill_row_blank:
  "length r \<le> cols \<Longrightarrow> list_all (list_all xml_char) r \<Longrightarrow>
   fill_row (replicate cols ([], False)) h 0 r
     = (map (\<lambda>t. (t, h)) r @ replicate (cols - length r) ([], False), None)"
  using fill_row_fits [of 0 r "replicate cols ([], False)" h] by simp

lemma fill_table_fits:
  assumes "\<forall>r\<in>set rs. length r \<le> cols"
    and "list_all (list_all (list_all xml_char)) rs"
    and "i + length rs \<le> length g"
    and "\<forall>k. i \<le> k \<and> k < length g \<longrightarrow> g ! k = replicate cols ([], False)"
  shows "snd (fill_table g i rs) = None \<and>
         (\<forall>k. i \<le> k \<and> k < i + length rs \<longrightarrow>
            fst (fill_table g i rs) ! k
              = map (\<lambda>t. (t, k = 0)) (rs ! (k - i))
                @ replicate (cols - length (rs ! (k - i))) ([], False))"
  using assms
proof (induction rs arbitrary: g i)
  case Nil
  then show ?case by auto
next
  case (Cons r rs)
  let ?row = "map (\<lambda>t. (t, i = 0)) r @ replicate (cols - length r) ([], False)"
  let ?g = "g[i := ?row]"
  from Cons.prems have i: "i < length g" and r: "length r \<le> cols"
    and ok: "list_all (list_all xml_char) r"
    by auto
  from Cons.prems(4) i have "g ! i = replicate cols ([], False)"
    by simp
  with r ok have row: "fill_row (g ! i) (i = 0) 0 r = (?row, None)"
    by (simp add: fill_row_blank)
  then have unfold: "fill_table g i (r # rs) = fill_table ?g (Suc i) rs"
    using i by simp
  have ih: "snd (fill_table ?g (Suc i) rs) = None \<and>
         (\<forall>k. Suc i \<le> k \<and> k < Suc i + length rs \<longrightarrow>
            fst (fill_table ?g (Suc i) rs) ! k
              = map (\<lambda>t. (t, k = 0)) (rs ! (k - Suc i))
                @ replicate (cols - length (rs ! (k - Suc i))) ([], False))"
    using Cons.prems by (intro Cons.IH) auto
  have at_i: "fst (fill_table ?g (Suc i) rs) ! i = ?row"
    using i by (simp add: fill_table_below)
  show ?case
    unfolding unfold
  proof (intro conjI allI impI)
    show "snd (fill_table ?g (Suc i) rs) = None"
      using ih by simp
  next
    fix k
    assume k: "i \<le> k \<and> k < i + length (r # rs)"
    show "fst (fill_table ?g (Suc i) rs) ! k
          = map (\<lambda>t. (t, k = 0)) ((r # rs) ! (k - i))
            @ replicate (cols - length ((r # rs) ! (k - i))) ([], False)"
    proof (cases "k = i")
      case True
      then show ?thesis
        using at_i by simp
    next
      case False
      with k have "Suc i \<le> k \<and> k < Suc i + length rs"
        by simp
      moreover from False k have "(r # rs) ! (k - i) = rs ! (k - Suc i)"
        by (simp add: nth_Cons')
      ultimately show ?thesis
        using ih by simp
    qed
  qed
qed




lemma collect_table_lines_acc:
  "length lines - idx \<le> n \<Longrightarrow>
   collect_table_lines lines idx acc
     = (acc @ fst (collect_table_lines lines idx []), snd (collect_table_lines lines idx []))"
proof (induction n arbitrary: idx acc)
  case 0
  then show ?case
    by (simp add: collect_table_lines.simps)
next
  case (Suc n)
  show ?case
  proof (cases "idx < length lines \<and> PIPE \<in> set (lines ! idx)")
    case False
    then show ?thesis
      by (auto simp: collect_table_lines.simps)
  next
    case True
    with Suc.prems have n: "length lines - Suc idx \<le> n"
      by simp
    note ih = Suc.IH [OF n]
    show ?thesis
    proof (cases "startswith (strip (lines ! idx)) [PIPE, DASH, DASH, DASH]")
      case sep: True
      with True ih [of acc] show ?thesis
        by (simp add: collect_table_lines.simps [of lines idx])
    next
      case sep: False
      with True ih [of "acc @ [lines ! idx]"] ih [of "[lines ! idx]"] show ?thesis
        by (simp add: collect_table_lines.simps [of lines idx])
    qed
  qed
qed

lemma collect_table_lines_first:
  assumes "i < length lines" and "PIPE \<in> set (lines ! i)"
    and "\<not> startswith (strip (lines ! i)) [PIPE, DASH, DASH, DASH]"
  shows "fst (collect_table_lines lines i []) = lines ! i # fst (collect_table_lines lines (Suc i) [])"
  using assms collect_table_lines_acc [of lines "Suc i" "length lines" "[lines ! i]"]
  by (simp add: collect_table_lines.simps [of lines i])

text \<open>What the table parser returns for a block with at least one row.\<close>

lemma add_table_from_markdown_rows:
  assumes "table_rows lines i \<noteq> []"
  shows "add_table_from_markdown doc lines i
         = (case fill_table (add_table (length (table_rows lines i)) (length (table_rows lines i ! 0)))
                   0 (table_rows lines i) of
              (g, Some e) \<Rightarrow> (doc @ [Table g], Inl e)
            | (g, None) \<Rightarrow> (doc @ [Table g, Paragraph []], Inr (snd (collect_table_lines lines i []))))"
proof -
  from assms have "fst (collect_table_lines lines i []) \<noteq> []"
    by (auto simp: table_rows_def)
  then show ?thesis
    by (simp add: add_table_from_markdown_def Let_def table_rows_def)
qed

text \<open>
  Claim C2, as the code has it. The line that starts a table block is skipped like every
  other line whose trimmed form starts with \<open>|---\<close>, and a block made of such lines only
  gives no table at all (the parser returns before creating one). When the first line of
  the block is not such a line, its cells are the first row of the parsed rows, and a
  table is added to the document with one row per parsed row, so at least one, and with
  as many columns as that first line has cells; when the document accepts the texts of
  these cells, row 0 of the table holds them, in the header format.
\<close>

theorem table_block_first_row:
  assumes "i < length lines" and "PIPE \<in> set (lines ! i)"
    and "\<not> startswith (strip (lines ! i)) [PIPE, DASH, DASH, DASH]"
  shows "table_rows lines i = parse_row (lines ! i) # table_rows lines (Suc i)
         \<and> (\<exists>g rest r. add_table_from_markdown doc lines i = (doc @ Table g # rest, r)
               \<and> 1 \<le> length g \<and> length g = length (table_rows lines i)
               \<and> length (g ! 0) = length (parse_row (lines ! i))
               \<and> (list_all xml_compatible (parse_row (lines ! i))
                    \<longrightarrow> g ! 0 = map (\<lambda>t. (t, True)) (parse_row (lines ! i))))"
proof -
  define more where "more = table_rows lines (Suc i)"
  define r0 where "r0 = parse_row (lines ! i)"
  define table where "table = add_table (Suc (length more)) (length r0)"
  define row0 where "row0 = map (\<lambda>t. (t, True)) r0"
  have "fst (collect_table_lines lines i []) = lines ! i # fst (collect_table_lines lines (Suc i) [])"
    using assms by (rule collect_table_lines_first)
  then have rows: "table_rows lines i = r0 # more"
    by (simp add: table_rows_def more_def r0_def)
  obtain g e where g: "fill_table table 0 (r0 # more) = (g, e)"
    by (cases "fill_table table 0 (r0 # more)")
  have len: "length g = Suc (length more)"
    using fill_table_length [of table 0 "r0 # more"] g by (simp add: table_def add_table_def)
  have len0: "length (g ! 0) = length r0"
    using fill_table_row_length [of table 0 "r0 # more" 0] g
    by (simp add: table_def add_table_def)
  have g0: "g ! 0 = row0" if ok: "list_all xml_compatible r0"
  proof -
    have "fill_row (table ! 0) True 0 r0 = (row0, None)"
      using fill_row_blank [of r0 "length r0" True] ok
      by (simp add: table_def add_table_def row0_def)
    then have "fill_table table 0 (r0 # more) = fill_table (table[0 := row0]) (Suc 0) more"
      by (simp add: table_def add_table_def)
    moreover have "fst (fill_table (table[0 := row0]) (Suc 0) more) ! 0 = (table[0 := row0]) ! 0"
      by (rule fill_table_below) simp
    ultimately show ?thesis
      using g by (simp add: table_def add_table_def)
  qed
  have "add_table_from_markdown doc lines i
        = (case e of Some x \<Rightarrow> (doc @ [Table g], Inl x)
           | None \<Rightarrow> (doc @ [Table g, Paragraph []], Inr (snd (collect_table_lines lines i []))))"
    using add_table_from_markdown_rows [of lines i doc] rows g
    by (simp add: table_def split: option.splits)
  then have "\<exists>rest r. add_table_from_markdown doc lines i = (doc @ Table g # rest, r)"
    by (cases e) simp_all
  with len len0 g0 rows show ?thesis
    unfolding row0_def r0_def more_def by auto
qed

theorem table_block_first_row_witness:
  "0 < length [str ''| A | B |'', str ''|---|---|'', str ''| 1 | 2 |'']
   \<and> PIPE \<in> set ([str ''| A | B |'', str ''|---|---|'', str ''| 1 | 2 |''] ! 0)
   \<and> \<not> startswith (strip ([str ''| A | B |'', str ''|---|---|'', str ''| 1 | 2 |''] ! 0))
         [PIPE, DASH, DASH, DASH]
   \<and> (\<exists>g rest r. add_table_from_markdown []
           [str ''| A | B |'', str ''|---|---|'', str ''| 1 | 2 |''] 0 = ([] @ Table g # rest, r)
         \<and> 1 \<le> length g \<and> length g = 2
         \<and> g ! 0 = [(str ''A'', True), (str ''B'', True)])"
proof -
  let ?L = "[str ''| A | B |'', str ''|---|---|'', str ''| 1 | 2 |'']"
  have h1: "0 < length ?L"
    by simp
  have h2: "PIPE \<in> set (?L ! 0)"
    by (simp add: str_def)
  have h3: "\<not> startswith (strip (?L ! 0)) [PIPE, DASH, DASH, DASH]"
    by (simp add: eval_defs)
  have rows: "length (table_rows ?L 0) = 2"
    by (simp add: eval_defs)
  have row: "map (\<lambda>t. (t, True)) (parse_row (?L ! 0)) = [(str ''A'', True), (str ''B'', True)]"
    by (simp add: eval_defs)
  have ok: "list_all xml_compatible (parse_row (?L ! 0))"
    by (simp add: eval_defs)
  from table_block_first_row [OF h1 h2 h3, of "[]"] ok h1 h2 h3 show ?thesis
    unfolding rows row by blast
qed

text \<open>
  The claim as the specification states it fails on two separator lines: the loop takes
  the table branch for the first one (it goes on at index 2 without adding a block), and
  the block has no row.
\<close>

theorem separator_block_gives_no_table:
  "PIPE \<in> set (rstrip (str ''|---|''))
   \<and> contains (str ''|---|'') [PIPE, DASH, DASH, DASH]
   \<and> table_rows [str ''|---|'', str ''|---|''] 0 = []
   \<and> step [] [str ''|---|'', str ''|---|''] 0 = Next [] 2"
  by (simp add: eval_defs)




text \<open>
  Claim C10. When every row of the block has at most as many cells as its first row,
  the table that is added has one row per parsed row, each with the column count of the
  first row, and every cell beyond the cells of its row is left empty. When the document
  accepts every cell text, the cells that a row has a text for hold that text (in the
  header format on row 0), and the spacing paragraph follows the table.
\<close>

theorem short_rows_padded:
  assumes "table_rows lines i \<noteq> []"
    and "\<forall>r\<in>set (table_rows lines i). length r \<le> length (table_rows lines i ! 0)"
  shows "\<exists>g rest r. add_table_from_markdown doc lines i = (doc @ Table g # rest, r)
           \<and> length g = length (table_rows lines i)
           \<and> (\<forall>k<length (table_rows lines i).
                 length (g ! k) = length (table_rows lines i ! 0)
                 \<and> (\<forall>c. length (table_rows lines i ! k) \<le> c \<and> c < length (table_rows lines i ! 0)
                       \<longrightarrow> g ! k ! c = ([], False)))
           \<and> (list_all (list_all xml_compatible) (table_rows lines i)
                \<longrightarrow> rest = [Paragraph []] \<and> r = Inr (snd (collect_table_lines lines i []))
                    \<and> (\<forall>k<length (table_rows lines i). \<forall>c<length (table_rows lines i ! k).
                          g ! k ! c = (table_rows lines i ! k ! c, k = 0)))"
proof -
  define rows where "rows = table_rows lines i"
  define cols where "cols = length (rows ! 0)"
  define table where "table = add_table (length rows) cols"
  obtain g e where g: "fill_table table 0 rows = (g, e)"
    by (cases "fill_table table 0 rows")
  define rest where "rest = (case e of None \<Rightarrow> [Paragraph []] | Some x \<Rightarrow> [])"
  define r where "r = (case e of None \<Rightarrow> Inr (snd (collect_table_lines lines i [])) | Some x \<Rightarrow> Inl x)"
  have fit: "\<forall>r\<in>set rows. length r \<le> cols"
    using assms(2) by (simp add: rows_def cols_def)
  have res: "add_table_from_markdown doc lines i = (doc @ Table g # rest, r)"
    using add_table_from_markdown_rows [OF assms(1), of doc] g
    by (simp add: rows_def cols_def table_def rest_def r_def split: option.splits)
  have len: "length g = length rows"
    using fill_table_length [of table 0 rows] g by (simp add: table_def add_table_def)
  have shape: "length (g ! k) = cols \<and> (\<forall>c. length (rows ! k) \<le> c \<and> c < cols \<longrightarrow> g ! k ! c = ([], False))"
    if k: "k < length rows" for k
  proof -
    have "length (g ! k) = length (table ! k)"
      using fill_table_row_length [of table 0 rows k] g by simp
    moreover have "g ! k ! c = table ! k ! c" if "length (rows ! k) \<le> c" for c
      using fill_table_beyond [of 0 k rows c table] g k that by simp
    ultimately show ?thesis
      using k by (simp add: table_def add_table_def)
  qed
  have filled: "rest = [Paragraph []] \<and> r = Inr (snd (collect_table_lines lines i []))
                \<and> (\<forall>k<length rows. \<forall>c<length (rows ! k). g ! k ! c = (rows ! k ! c, k = 0))"
    if ok: "list_all (list_all xml_compatible) rows"
  proof -
    have "snd (fill_table table 0 rows) = None \<and>
         (\<forall>k. 0 \<le> k \<and> k < 0 + length rows \<longrightarrow>
            fst (fill_table table 0 rows) ! k
              = map (\<lambda>t. (t, k = 0)) (rows ! (k - 0))
                @ replicate (cols - length (rows ! (k - 0))) ([], False))"
      using fit ok by (intro fill_table_fits) (simp_all add: table_def add_table_def)
    with g have e: "e = None"
      and row: "\<And>k. k < length rows \<Longrightarrow>
            g ! k = map (\<lambda>t. (t, k = 0)) (rows ! k) @ replicate (cols - length (rows ! k)) ([], False)"
      by simp_all
    from row have "\<forall>k<length rows. \<forall>c<length (rows ! k). g ! k ! c = (rows ! k ! c, k = 0)"
      by (simp add: nth_append)
    with e show ?thesis
      by (simp add: rest_def r_def)
  qed
  from res len shape filled show ?thesis
    unfolding rows_def [symmetric] cols_def [symmetric] by blast
qed

theorem short_rows_padded_witness:
  "table_rows [str ''| A | B |'', str ''|---|'', str ''| 1 |''] 0 \<noteq> []
   \<and> list_all
         (\<lambda>r. length r \<le> length (table_rows [str ''| A | B |'', str ''|---|'', str ''| 1 |''] 0 ! 0))
         (table_rows [str ''| A | B |'', str ''|---|'', str ''| 1 |''] 0)
   \<and> (\<exists>g. add_table_from_markdown [] [str ''| A | B |'', str ''|---|'', str ''| 1 |''] 0
             = ([Table g, Paragraph []], Inr 3)
         \<and> length g = 2 \<and> length (g ! 1) = 2
         \<and> g ! 1 ! 0 = (str ''1'', False) \<and> g ! 1 ! 1 = ([], False))"
proof -
  let ?L = "[str ''| A | B |'', str ''|---|'', str ''| 1 |'']"
  have rows: "table_rows ?L 0 = [[str ''A'', str ''B''], [str ''1'']]"
    by (simp add: eval_defs)
  have idx: "snd (collect_table_lines ?L 0 []) = 3"
    by (simp add: eval_defs)
  have h1: "table_rows ?L 0 \<noteq> []"
    unfolding rows by simp
  have h2: "\<forall>r\<in>set (table_rows ?L 0). length r \<le> length (table_rows ?L 0 ! 0)"
    unfolding rows by simp
  have ok: "list_all (list_all xml_compatible) (table_rows ?L 0)"
    unfolding rows by (simp add: str_def xml_char_def)
  from short_rows_padded [OF h1 h2, of "[]"] obtain g rest r where
    g: "add_table_from_markdown [] ?L 0 = ([] @ Table g # rest, r)"
       "length g = length (table_rows ?L 0)"
       "\<forall>k<length (table_rows ?L 0).
          length (g ! k) = length (table_rows ?L 0 ! 0)
          \<and> (\<forall>c. length (table_rows ?L 0 ! k) \<le> c \<and> c < length (table_rows ?L 0 ! 0)
                \<longrightarrow> g ! k ! c = ([], False))"
       "list_all (list_all xml_compatible) (table_rows ?L 0)
          \<longrightarrow> rest = [Paragraph []] \<and> r = Inr (snd (collect_table_lines ?L 0 []))
              \<and> (\<forall>k<length (table_rows ?L 0). \<forall>c<length (table_rows ?L 0 ! k).
                    g ! k ! c = (table_rows ?L 0 ! k ! c, k = 0))"
    by blast
  from g(4) ok have filled: "rest = [Paragraph []]" "r = Inr 3"
    "\<forall>k<2. \<forall>c<length ([[str ''A'', str ''B''], [str ''1'']] ! k).
        g ! k ! c = ([[str ''A'', str ''B''], [str ''1'']] ! k ! c, k = 0)"
    unfolding rows idx by simp_all
  from g(3) have shape: "\<forall>k<2. length (g ! k) = 2
          \<and> (\<forall>c. length ([[str ''A'', str ''B''], [str ''1'']] ! k) \<le> c \<and> c < 2
                \<longrightarrow> g ! k ! c = ([], False))"
    unfolding rows by simp
  from shape have "length (g ! 1) = 2 \<and> g ! 1 ! 1 = ([], False)"
    by simp
  moreover from filled(3) have "g ! 1 ! 0 = (str ''1'', False)"
    by simp
  moreover from g(2) have "length g = 2"
    unfolding rows by simp
  ultimately show ?thesis
    using g(1) filled(1,2) h1 h2 unfolding list_all_iff by auto
qed

section \<open>Properties of \<open>main\<close>\<close>

lemma add_heading_no_page_break:
  "count_list (fst (add_heading doc t level)) PageBreak = count_list doc PageBreak"
  by (simp add: add_heading_def split: prod.splits option.splits)

lemma add_runs_no_page_break: "fst (add_runs runs b i parts) \<noteq> PageBreak"
  by (induction parts arbitrary: runs) (auto split: prod.splits option.splits)

lemma add_paragraph_no_page_break:
  "count_list (fst (add_paragraph doc t b i)) PageBreak = count_list doc PageBreak"
  using add_runs_no_page_break [of "[]" b i "parse_inline_markdown t"]
  by (cases "add_runs [] b i (parse_inline_markdown t)") (simp add: add_paragraph_def)

lemma add_table_from_markdown_no_page_break:
  "count_list (fst (add_table_from_markdown doc lines i)) PageBreak = count_list doc PageBreak"
  by (simp add: add_table_from_markdown_def Let_def split: prod.splits option.splits)

lemma then_next_no_page_break:
  "then_next r i = Next doc' i' \<or> then_next r i = Raised doc' e \<Longrightarrow> doc' = fst r"
  by (cases r) (auto simp: then_next_def split: option.splits)

lemma step_no_page_break:
  "step doc lines i = Next doc' i' \<or> step doc lines i = Raised doc' e
   \<Longrightarrow> count_list doc' PageBreak = count_list doc PageBreak"
  using add_table_from_markdown_no_page_break [of doc lines i]
  by (auto simp: step_def Let_def add_heading_no_page_break add_paragraph_no_page_break
      split: if_splits prod.splits sum.splits dest!: then_next_no_page_break)

lemma process_from_no_page_break:
  "count_list (fst (process_from doc lines i)) PageBreak = count_list doc PageBreak"
proof (induction doc lines i rule: process_from.induct)
  case (1 doc lines i)
  show ?case
  proof (cases "i < length lines")
    case False
    then show ?thesis
      by (simp add: process_from.simps)
  next
    case True
    show ?thesis
    proof (cases "step doc lines i")
      case (Next doc' i')
      with True "1.IH" [OF True Next] step_no_page_break [of doc lines i doc' i'] show ?thesis
        by (simp add: process_from.simps [of doc])
    next
      case (Raised doc' e)
      with True step_no_page_break [of doc lines i doc' _ e] show ?thesis
        by (simp add: process_from.simps [of doc])
    qed
  qed
qed

lemma process_markdown_file_no_page_break:
  "count_list (fst (process_markdown_file fs doc f)) PageBreak = count_list doc PageBreak"
  by (simp add: process_markdown_file_def process_from_no_page_break split: file_read.splits)

lemma process_markdown_file_status:
  "snd (process_markdown_file fs doc f) = snd (process_markdown_file fs [] f)"
  using process_from_frame [of doc "[]"]
  by (simp add: process_markdown_file_def split: file_read.splits)

lemma merge_files_page_breaks:
  "count_list (merge_files fs doc files) PageBreak
   = count_list doc PageBreak
     + length (filter (\<lambda>f. snd (process_markdown_file fs [] f) = None) files)"
proof (induction files arbitrary: doc)
  case Nil
  then show ?case by simp
next
  case (Cons f files)
  obtain doc' st where p: "process_markdown_file fs doc f = (doc', st)"
    by (cases "process_markdown_file fs doc f")
  then have c: "count_list doc' PageBreak = count_list doc PageBreak"
    using process_markdown_file_no_page_break [of fs doc f] by simp
  from p have s: "snd (process_markdown_file fs [] f) = st"
    using process_markdown_file_status [of fs doc f] by simp
  show ?case
  proof (cases st)
    case None
    with p c s Cons.IH [of "add_page_break doc'"] show ?thesis
      by (simp add: add_page_break_def)
  next
    case (Some e)
    with p c s Cons.IH [of doc'] show ?thesis
      by simp
  qed
qed

text \<open>
  Claim C4. For a file whose conversion runs to its end, \<open>main\<close> appends one page break
  right after what the file added, and the conversion itself adds none. So the page breaks
  of the document that is saved are those of the input document, the one \<open>main\<close> adds
  before the new content, and one for each file that was converted to its end; a file that
  is missing, or whose conversion ends with an error, gets none.
\<close>

theorem page_break_after_each_finished_file:
  "(\<forall>doc f rest doc'. process_markdown_file fs doc f = (doc', None)
       \<longrightarrow> merge_files fs doc (f # rest) = merge_files fs (doc' @ [PageBreak]) rest
           \<and> count_list doc' PageBreak = count_list doc PageBreak)
   \<and> count_list (main fs input_doc files) PageBreak
       = count_list input_doc PageBreak + 1
         + length (filter (\<lambda>f. snd (process_markdown_file fs [] f) = None) files)"
proof (intro conjI allI impI)
  fix doc f rest doc'
  assume p: "process_markdown_file fs doc f = (doc', None)"
  then show "merge_files fs doc (f # rest) = merge_files fs (doc' @ [PageBreak]) rest"
    by (simp add: add_page_break_def)
  from p show "count_list doc' PageBreak = count_list doc PageBreak"
    using process_markdown_file_no_page_break [of fs doc f] by simp
next
  show "count_list (main fs input_doc files) PageBreak
       = count_list input_doc PageBreak + 1
         + length (filter (\<lambda>f. snd (process_markdown_file fs [] f) = None) files)"
    by (simp add: main_def merge_files_page_breaks add_page_break_def)
qed

theorem page_break_after_each_finished_file_witness:
  "main (\<lambda>p. if p = str ''a.md'' then Lines [str ''# A'' @ [NEWLINE], str ''text'' @ [NEWLINE]]
              else if p = str ''b.md'' then Lines [str ''## B'' @ [NEWLINE]]
              else if p = str ''c.md'' then Lines [str ''x'' @ [12] @ str ''y'' @ [NEWLINE]]
              else NotFound)
        [] [str ''a.md'', str ''missing.md'', str ''c.md'', str ''b.md'']
     = [PageBreak, Heading 1 (str ''A''), Paragraph [(str ''text'', False, False)], PageBreak,
        Unfinished [] [], Heading 2 (str ''B''), PageBreak]
   \<and> count_list [PageBreak, Heading 1 (str ''A''), Paragraph [(str ''text'', False, False)],
                   PageBreak, Unfinished [] [], Heading 2 (str ''B''), PageBreak] PageBreak
       = 0 + 1 + 2"
proof -
  let ?fs = "\<lambda>p. if p = str ''a.md'' then Lines [str ''# A'' @ [NEWLINE], str ''text'' @ [NEWLINE]]
              else if p = str ''b.md'' then Lines [str ''## B'' @ [NEWLINE]]
              else if p = str ''c.md'' then Lines [str ''x'' @ [12] @ str ''y'' @ [NEWLINE]]
              else NotFound"
  let ?files = "[str ''a.md'', str ''missing.md'', str ''c.md'', str ''b.md'']"
  have m: "main ?fs [] ?files
     = [PageBreak, Heading 1 (str ''A''), Paragraph [(str ''text'', False, False)], PageBreak,
        Unfinished [] [], Heading 2 (str ''B''), PageBreak]"
    by (simp add: main_def add_page_break_def process_markdown_file_def eval_defs)
  have f: "length (filter (\<lambda>f. snd (process_markdown_file ?fs [] f) = None) ?files) = 2"
    by (simp add: process_markdown_file_def eval_defs)
  have "count_list (main ?fs [] ?files) PageBreak
       = count_list [] PageBreak + 1
         + length (filter (\<lambda>f. snd (process_markdown_file ?fs [] f) = None) ?files)"
    using page_break_after_each_finished_file [of ?fs "[]" ?files] by (rule conjunct2)
  then have "count_list (main ?fs [] ?files) PageBreak = 0 + 1 + 2"
    unfolding f by simp
  with m show ?thesis
    by (simp only:)
qed

section \<open>The round trip of the inline tokenizer\<close>

text \<open>\<open>unstar s\<close> is \<open>s\<close> with every asterisk deleted.\<close>

abbreviation (input) unstar :: "pystr \<Rightarrow> pystr" where
  "unstar s \<equiv> filter (\<lambda>c. c \<noteq> STAR) s"

lemma unstar_stars: "\<forall>c\<in>set s. c = STAR \<Longrightarrow> unstar s = []"
  by (induction s) auto

lemma slice_unstar:
  assumes "\<forall>c\<in>set (take a m). c = STAR" and "\<forall>c\<in>set (drop b m). c = STAR"
  shows "unstar (slice m a b) = unstar m"
proof (cases "a \<le> b")
  case True
  then have "m = take a m @ slice m a b @ drop b m"
    by (simp add: slice_def) (metis append_take_drop_id drop_drop le_add_diff_inverse2 add.commute)
  then have "unstar m = unstar (take a m) @ unstar (slice m a b) @ unstar (drop b m)"
    by (metis filter_append)
  with assms show ?thesis
    by (simp add: unstar_stars)
next
  case False
  then have "set (drop a m) \<subseteq> set (drop b m)"
    by (intro set_drop_subset_set_drop) simp
  with assms(2) have "\<forall>c\<in>set (drop a m). c = STAR"
    by blast
  moreover have "set m = set (take a m) \<union> set (drop a m)"
    by (metis append_take_drop_id set_append)
  ultimately have "\<forall>c\<in>set m. c = STAR"
    using assms(1) by blast
  then have "unstar m = []"
    by (rule unstar_stars)
  with False show ?thesis
    by (simp add: slice_def)
qed

lemma startswith_single: "startswith m [c] = (m \<noteq> [] \<and> hd m = c)"
  by (cases m) (auto simp: startswith_def)

lemma endswith_single: "endswith m [c] = (m \<noteq> [] \<and> last m = c)"
  by (cases m rule: rev_cases) (auto simp: endswith_def)

lemma close_bold_star: "close_bold s = Some k \<Longrightarrow> s ! Suc k = STAR"
proof (induction s arbitrary: k)
  case Nil
  then show ?case by simp
next
  case (Cons c cs)
  then show ?case
    by (cases cs) (auto simp: startswith_def split: if_splits)
qed

lemma close_italic_star: "close_italic s = Some k \<Longrightarrow> s ! k = STAR"
  by (induction s arbitrary: k) (auto split: if_splits)

lemma match_at_stars:
  assumes "match_at s = Some n"
  shows "hd (take n s) = STAR \<and> last (take n s) = STAR \<and> take n s \<noteq> []"
proof -
  from assms have n: "2 \<le> n" "n \<le> length s"
    using match_at_bounds by auto
  then have ne: "take n s \<noteq> []"
    by auto
  from assms have "hd s = STAR"
    by (cases s) (auto simp: match_at_def startswith_def split: option.splits if_splits)
  with n have h: "hd (take n s) = STAR"
    by (cases s) (auto simp: take_Cons')
  have "last (take n s) = s ! (n - 1)"
    using n ne by (simp add: last_conv_nth)
  moreover have "s ! (n - 1) = STAR"
  proof (cases "startswith s [STAR, STAR] \<and> close_bold (drop 2 s) \<noteq> None")
    case True
    then obtain k where k: "close_bold (drop 2 s) = Some k"
      by auto
    with True assms have "n = k + 4"
      by (simp add: match_at_def)
    then have i: "n - 1 = 2 + Suc k"
      by arith
    from k have "drop 2 s ! Suc k = STAR"
      by (rule close_bold_star)
    moreover from n have "drop 2 s ! Suc k = s ! (2 + Suc k)"
      by (intro nth_drop) simp
    ultimately show ?thesis
      unfolding i by (simp only:)
  next
    case False
    with assms obtain k where k: "close_italic (drop 1 s) = Some k" and "n = k + 2"
      by (auto simp: match_at_def split: option.splits if_splits)
    then have i: "n - 1 = 1 + k"
      by arith
    from k have "drop 1 s ! k = STAR"
      by (rule close_italic_star)
    moreover from n have "drop 1 s ! k = s ! (1 + k)"
      by (intro nth_drop) simp
    ultimately show ?thesis
      unfolding i by (simp only:)
  qed
  ultimately show ?thesis
    using h ne by simp
qed

lemma match_step_unstar:
  assumes "match_at (drop p line) = Some n" and "cur \<le> p"
  shows "snd (match_step line (parts, cur) (p, p + n)) = p + n \<and>
         unstar (concat (map fst (fst (match_step line (parts, cur) (p, p + n)))))
           = unstar (concat (map fst parts)) @ unstar (slice line cur (p + n))"
proof -
  define M where "M = slice line p (p + n)"
  have M: "M = take n (drop p line)"
    by (simp add: M_def slice_def)
  with assms(1) have ends: "startswith M [STAR]" "endswith M [STAR]"
    using match_at_stars [of "drop p line" n]
    by (simp_all add: startswith_single endswith_single)
  have bold: "unstar (slice M 2 (length M - 2)) = unstar M"
    if "startswith M [STAR, STAR]" and "endswith M [STAR, STAR]"
  proof (rule slice_unstar)
    from that(1) have "take 2 M = [STAR, STAR]"
      by (simp add: startswith_def numeral_2_eq_2)
    then show "\<forall>c\<in>set (take 2 M). c = STAR"
      by simp
    from that(2) have "drop (length M - 2) M = [STAR, STAR]"
      by (simp add: endswith_def numeral_2_eq_2)
    then show "\<forall>c\<in>set (drop (length M - 2) M). c = STAR"
      by simp
  qed
  have italic: "unstar (slice M 1 (length M - 1)) = unstar M"
  proof (rule slice_unstar)
    from ends(1) have "take 1 M = [STAR]"
      by (simp add: startswith_def)
    then show "\<forall>c\<in>set (take 1 M). c = STAR"
      by simp
    from ends(2) have "drop (length M - 1) M = [STAR]"
      by (simp add: endswith_def)
    then show "\<forall>c\<in>set (drop (length M - 1) M). c = STAR"
      by simp
  qed
  have "p + n - cur = (p - cur) + n"
    using assms(2) by simp
  then have "slice line cur (p + n) = take (p - cur) (drop cur line) @ take n (drop (p - cur) (drop cur line))"
    unfolding slice_def by (simp only: take_add)
  then have split: "slice line cur (p + n) = slice line cur p @ M"
    using assms(2) by (simp add: slice_def M)
  have before: "unstar (if cur < p then slice line cur p else []) = unstar (slice line cur p)"
    by (simp add: slice_def)
  show ?thesis
    using ends bold italic before
    by (auto simp: match_step_def Let_def M_def [symmetric] split)
qed

lemma finditer_fold_unstar:
  "cur \<le> p \<Longrightarrow>
   unstar (concat (map fst (fst (foldl (match_step line) (parts, cur) (finditer_from line p)))))
     @ unstar (drop (snd (foldl (match_step line) (parts, cur) (finditer_from line p))) line)
   = unstar (concat (map fst parts)) @ unstar (drop cur line)"
proof (induction line p arbitrary: parts cur rule: finditer_from.induct)
  case (1 line p)
  show ?case
  proof (cases "length line \<le> p")
    case True
    then show ?thesis
      by (simp add: finditer_from.simps [of line p])
  next
    case False
    show ?thesis
    proof (cases "match_at (drop p line)")
      case None
      with False "1.IH"(1) [OF False None, of cur parts] "1.prems" show ?thesis
        by (simp add: finditer_from.simps [of line p])
    next
      case (Some n)
      obtain parts2 where ms: "match_step line (parts, cur) (p, p + n) = (parts2, p + n)"
        using match_step_unstar [OF Some "1.prems", of parts]
        by (cases "match_step line (parts, cur) (p, p + n)") simp
      then have u: "unstar (concat (map fst parts2))
                    = unstar (concat (map fst parts)) @ unstar (slice line cur (p + n))"
        using match_step_unstar [OF Some "1.prems", of parts] by simp
      have "slice line cur (p + n) @ drop (p + n) line = drop cur line"
        using "1.prems"
        by (simp add: slice_def) (metis append_take_drop_id drop_drop add.commute le_add_diff_inverse2 trans_le_add1)
      then have "unstar (slice line cur (p + n)) @ unstar (drop (p + n) line) = unstar (drop cur line)"
        by (metis filter_append)
      with False Some ms u "1.IH"(2) [OF False Some, of "p + n" parts2] show ?thesis
        by (simp add: finditer_from.simps [of line p])
    qed
  qed
qed

lemma parse_inline_markdown_unstar:
  "unstar (concat (map fst (parse_inline_markdown line))) = unstar line"
proof -
  define st where "st = foldl (match_step line) ([], 0) (finditer_from line 0)"
  have inv: "unstar (concat (map fst (fst st))) @ unstar (drop (snd st) line) = unstar line"
    using finditer_fold_unstar [of 0 0 line "[]"] by (simp add: st_def)
  show ?thesis
  proof (cases "snd st < length line")
    case True
    with inv show ?thesis
      by (simp add: parse_inline_markdown_def finditer_def st_def [symmetric] Let_def slice_def)
  next
    case False
    with inv show ?thesis
      by (auto simp: parse_inline_markdown_def finditer_def st_def [symmetric] Let_def)
  qed
qed

text \<open>
  The line without the markers of its matched spans, as the specification describes the
  result of the tokenizer (the text before, between and after the matches is emitted as
  it is, and the markers are stripped from the text of a span): from position \<open>cur\<close>, the
  text up to each span, then the span without its markers, which are two asterisks at
  each end when the span starts and ends with two and one at each end otherwise, and
  after the last span the rest of the line.
\<close>

definition spec_span_text :: "pystr \<Rightarrow> pystr" where
  "spec_span_text m =
     (if startswith m [STAR, STAR] \<and> endswith m [STAR, STAR] then slice m 2 (length m - 2)
      else slice m 1 (length m - 1))"

fun spec_without_markers :: "pystr \<Rightarrow> nat \<Rightarrow> (nat \<times> nat) list \<Rightarrow> pystr" where
  "spec_without_markers line cur [] = drop cur line"
| "spec_without_markers line cur ((s, e) # spans) =
     slice line cur s @ spec_span_text (slice line s e) @ spec_without_markers line e spans"

lemma match_step_text:
  assumes "match_at (drop p line) = Some n" and "cur \<le> p"
  shows "snd (match_step line (parts, cur) (p, p + n)) = p + n \<and>
         fst (match_step line (parts, cur) (p, p + n)) \<noteq> [] \<and>
         concat (map fst (fst (match_step line (parts, cur) (p, p + n))))
           = concat (map fst parts) @ slice line cur p @ spec_span_text (slice line p (p + n))"
proof -
  define M where "M = slice line p (p + n)"
  have M: "M = take n (drop p line)"
    by (simp add: M_def slice_def)
  with assms(1) have ends: "startswith M [STAR]" "endswith M [STAR]"
    using match_at_stars [of "drop p line" n]
    by (simp_all add: startswith_single endswith_single)
  have before: "(if cur < p then slice line cur p else []) = slice line cur p"
    by (simp add: slice_def)
  show ?thesis
    using ends before
    by (auto simp: match_step_def Let_def M_def [symmetric] spec_span_text_def)
qed

lemma finditer_fold_text:
  "cur \<le> p \<Longrightarrow>
   concat (map fst (fst (foldl (match_step line) (parts, cur) (finditer_from line p))))
     @ drop (snd (foldl (match_step line) (parts, cur) (finditer_from line p))) line
   = concat (map fst parts) @ spec_without_markers line cur (finditer_from line p)"
proof (induction line p arbitrary: parts cur rule: finditer_from.induct)
  case (1 line p)
  show ?case
  proof (cases "length line \<le> p")
    case True
    then show ?thesis
      by (simp add: finditer_from.simps [of line p])
  next
    case False
    show ?thesis
    proof (cases "match_at (drop p line)")
      case None
      with False "1.IH"(1) [OF False None, of cur parts] "1.prems" show ?thesis
        by (simp add: finditer_from.simps [of line p])
    next
      case (Some n)
      obtain parts2 where ms: "match_step line (parts, cur) (p, p + n) = (parts2, p + n)"
        using match_step_text [OF Some "1.prems", of parts]
        by (cases "match_step line (parts, cur) (p, p + n)") simp
      then have u: "concat (map fst parts2)
                    = concat (map fst parts) @ slice line cur p @ spec_span_text (slice line p (p + n))"
        using match_step_text [OF Some "1.prems", of parts] by simp
      with False Some ms "1.IH"(2) [OF False Some, of "p + n" parts2] show ?thesis
        by (simp add: finditer_from.simps [of line p])
    qed
  qed
qed

lemma match_step_keeps_parts:
  "parts \<noteq> [] \<Longrightarrow> fst (foldl (match_step line) (parts, cur) ms) \<noteq> []"
proof (induction ms arbitrary: parts cur)
  case Nil
  then show ?case by simp
next
  case (Cons m ms)
  obtain parts2 cur2 where ms: "match_step line (parts, cur) m = (parts2, cur2)"
    by (cases "match_step line (parts, cur) m")
  with Cons.prems have "parts2 \<noteq> []"
    by (auto simp: match_step_def Let_def split: if_splits)
  then have "fst (foldl (match_step line) (parts2, cur2) ms) \<noteq> []"
    by (rule Cons.IH)
  with ms show ?case
    by simp
qed

lemma finditer_fold_no_parts:
  "fst (foldl (match_step line) (parts, cur) (finditer_from line p)) = [] \<Longrightarrow> cur \<le> p \<Longrightarrow>
   snd (foldl (match_step line) (parts, cur) (finditer_from line p)) = cur"
proof (induction line p arbitrary: parts cur rule: finditer_from.induct)
  case (1 line p)
  show ?case
  proof (cases "length line \<le> p")
    case True
    then show ?thesis
      by (simp add: finditer_from.simps [of line p])
  next
    case False
    show ?thesis
    proof (cases "match_at (drop p line)")
      case None
      with False "1.IH"(1) [OF False None, of parts cur] "1.prems" show ?thesis
        by (simp add: finditer_from.simps [of line p])
    next
      case (Some n)
      obtain parts2 where ms: "match_step line (parts, cur) (p, p + n) = (parts2, p + n)"
        and "parts2 \<noteq> []"
        using match_step_text [OF Some "1.prems"(2), of parts]
        by (cases "match_step line (parts, cur) (p, p + n)") simp
      then have "fst (foldl (match_step line) (parts2, p + n) (finditer_from line (p + n))) \<noteq> []"
        by (intro match_step_keeps_parts)
      with False Some ms "1.prems"(1) show ?thesis
        by (simp add: finditer_from.simps [of line p])
    qed
  qed
qed

lemma parse_inline_markdown_text:
  "concat (map fst (parse_inline_markdown line)) = spec_without_markers line 0 (finditer line)"
proof -
  define st where "st = foldl (match_step line) ([], 0) (finditer_from line 0)"
  have inv: "concat (map fst (fst st)) @ drop (snd st) line
             = spec_without_markers line 0 (finditer line)"
    using finditer_fold_text [of 0 0 line "[]"] by (simp add: st_def finditer_def)
  show ?thesis
  proof (cases "snd st < length line")
    case True
    with inv show ?thesis
      by (simp add: parse_inline_markdown_def finditer_def st_def [symmetric] Let_def slice_def)
  next
    case False
    show ?thesis
    proof (cases "fst st = []")
      case True
      then have "snd st = 0"
        using finditer_fold_no_parts [of line "[]" 0 0] by (simp add: st_def)
      with inv True have "spec_without_markers line 0 (finditer line) = line"
        by simp
      moreover from True False have "parse_inline_markdown line = [(line, False, False)]"
        by (simp add: parse_inline_markdown_def finditer_def st_def [symmetric] Let_def)
      ultimately show ?thesis
        by simp
    next
      case parts: False
      with inv False show ?thesis
        by (simp add: parse_inline_markdown_def finditer_def st_def [symmetric] Let_def)
    qed
  qed
qed

lemma no_match_single_run:
  "finditer line = [] \<Longrightarrow> parse_inline_markdown line = [(line, False, False)]"
  by (cases line) (simp_all add: parse_inline_markdown_def slice_def)

text \<open>
  Claim C1, as the code has it. The texts of the runs, in order, are the line without the
  markers of the spans that the pattern matched, and with everything else as it is; so a
  line in which nothing matches is one plain run, the line itself, whatever asterisks it
  has. What is dropped is asterisks only: with the asterisks deleted on both sides, the
  runs and the line agree, and when no asterisk is left in the runs their concatenation is
  the line without its asterisks. The line of the example gives the four runs of the
  specification.
\<close>

theorem runs_keep_all_but_markers:
  "concat (map fst (parse_inline_markdown line)) = spec_without_markers line 0 (finditer line)
   \<and> filter (\<lambda>c. c \<noteq> STAR) (concat (map fst (parse_inline_markdown line)))
       = filter (\<lambda>c. c \<noteq> STAR) line
   \<and> (finditer line = [] \<longrightarrow> parse_inline_markdown line = [(line, False, False)])
   \<and> (STAR \<notin> set (concat (map fst (parse_inline_markdown line)))
        \<longrightarrow> concat (map fst (parse_inline_markdown line)) = filter (\<lambda>c. c \<noteq> STAR) line)
   \<and> parse_inline_markdown (str ''a **b** c *d*'')
       = [(str ''a '', False, False), (str ''b'', True, False),
          (str '' c '', False, False), (str ''d'', False, True)]"
proof (intro conjI impI)
  show "concat (map fst (parse_inline_markdown line)) = spec_without_markers line 0 (finditer line)"
    by (rule parse_inline_markdown_text)
  show 1: "unstar (concat (map fst (parse_inline_markdown line))) = unstar line"
    by (rule parse_inline_markdown_unstar)
  show "parse_inline_markdown line = [(line, False, False)]" if "finditer line = []"
    using that by (rule no_match_single_run)
  show "concat (map fst (parse_inline_markdown line)) = unstar line"
    if "STAR \<notin> set (concat (map fst (parse_inline_markdown line)))"
  proof -
    from that have "unstar (concat (map fst (parse_inline_markdown line)))
               = concat (map fst (parse_inline_markdown line))"
      by (intro filter_True) auto
    with 1 show ?thesis
      by simp
  qed
  show "parse_inline_markdown (str ''a **b** c *d*'')
       = [(str ''a '', False, False), (str ''b'', True, False),
          (str '' c '', False, False), (str ''d'', False, True)]"
    by (simp add: eval_defs)
qed

theorem runs_keep_all_but_markers_witness:
  "finditer (str ''2 * 3 = 6'') = []
   \<and> parse_inline_markdown (str ''2 * 3 = 6'') = [(str ''2 * 3 = 6'', False, False)]
   \<and> finditer (str ''a **b** c *d*'') = [(2, 7), (10, 13)]
   \<and> spec_without_markers (str ''a **b** c *d*'') 0 (finditer (str ''a **b** c *d*'')) = str ''a b c d''
   \<and> concat (map fst (parse_inline_markdown (str ''a **b** c *d*''))) = str ''a b c d''
   \<and> finditer (str ''**x*y** and * z'') = [(0, 7)]
   \<and> concat (map fst (parse_inline_markdown (str ''**x*y** and * z''))) = str ''x*y and * z''"
proof -
  have n: "finditer (str ''2 * 3 = 6'') = []"
    by (simp add: eval_defs)
  have "finditer (str ''2 * 3 = 6'') = []
        \<longrightarrow> parse_inline_markdown (str ''2 * 3 = 6'') = [(str ''2 * 3 = 6'', False, False)]"
    using runs_keep_all_but_markers [of "str ''2 * 3 = 6''"] by blast
  with n have 1: "parse_inline_markdown (str ''2 * 3 = 6'') = [(str ''2 * 3 = 6'', False, False)]"
    by (rule rev_mp)
  have f: "finditer (str ''a **b** c *d*'') = [(2, 7), (10, 13)]"
    by (simp add: eval_defs)
  have w: "spec_without_markers (str ''a **b** c *d*'') 0 [(2, 7), (10, 13)] = str ''a b c d''"
    by (simp add: spec_span_text_def eval_defs)
  have "concat (map fst (parse_inline_markdown (str ''a **b** c *d*'')))
        = spec_without_markers (str ''a **b** c *d*'') 0 (finditer (str ''a **b** c *d*''))"
    using runs_keep_all_but_markers [of "str ''a **b** c *d*''"] by blast
  then have 2: "concat (map fst (parse_inline_markdown (str ''a **b** c *d*''))) = str ''a b c d''"
    unfolding f w .
  have f3: "finditer (str ''**x*y** and * z'') = [(0, 7)]"
    by (simp add: eval_defs)
  have w3: "spec_without_markers (str ''**x*y** and * z'') 0 [(0, 7)] = str ''x*y and * z''"
    by (simp add: spec_span_text_def eval_defs)
  have "concat (map fst (parse_inline_markdown (str ''**x*y** and * z'')))
        = spec_without_markers (str ''**x*y** and * z'') 0 (finditer (str ''**x*y** and * z''))"
    using runs_keep_all_but_markers [of "str ''**x*y** and * z''"] by blast
  then have 3: "concat (map fst (parse_inline_markdown (str ''**x*y** and * z''))) = str ''x*y and * z''"
    unfolding f3 w3 .
  from n 1 f w 2 f3 3 show ?thesis
    unfolding f by (simp only: simp_thms)
qed

text \<open>
  The claim as the specification states it fails on a line with a single asterisk: no span
  matches, the line is one plain run with its asterisk, and the concatenation is not the
  line without asterisks.
\<close>

theorem lone_asterisk_kept:
  "parse_inline_markdown (str ''a * b'') = [(str ''a * b'', False, False)]
   \<and> concat (map fst (parse_inline_markdown (str ''a * b''))) \<noteq> filter (\<lambda>c. c \<noteq> STAR) (str ''a * b'')"
  by (simp add: eval_defs)

end
